theory Spec2Isabelle
  imports Main "HOL-Library.Word" "HOL-Library.Sublist"
begin

text \<open>
  A shallow embedding of package \<open>tease\<close>: the connection wrappers \<open>Server\<close> and
  \<open>Client\<close> (\<open>client.go\<close>), the Forward Multi-Reader, the Tee Capturing Reader
  (both copies of it the repository holds) and the Replay Reader built on them. Every method becomes a
  function from the state before the call to the state after it and the values
  returned; a caller's buffer is passed in and handed back as the call leaves it.
  Accessors that only delegate (addresses, deadlines, \<open>String\<close>, \<open>ReadByte\<close>,
  \<open>Stats\<close>) and the Replay Reader's \<open>Close\<close> are left out.
\<close>

section \<open>Bytes, errors and Go slices\<close>

type_synonym byte = "8 word"

text \<open>
  The package-level error values of the connection wrappers (\<open>errClosed\<close>,
  \<open>errHasWriten\<close>, \<open>errAlreadyPipe\<close>, \<open>errMaxBuffer\<close>), the two errors of the standard
  library the code meets (\<open>io.EOF\<close> and the error of a closed network connection), and
  the errors the three seekers build with \<open>errors.New\<close>. The seek errors carry the
  component that made them, since each component has its own message.
\<close>

datatype component = MultiRS | TeeRS | ReaderRS

datatype error =
    errClosed
  | errHasWriten
  | errAlreadyPipe
  | errMaxBuffer
  | io_EOF
  | net_ErrClosed
  | SeekFromEnd component
  | InvalidWhence component
  | NegativePosition component
  | CannotGoBackwards component
  | AlreadyPipedBackwards

text \<open>
  \<open>copy(dst, src)\<close> overwrites the first \<open>min (len dst) (len src)\<close> bytes of \<open>dst\<close>
  and returns that count. The model returns the new \<open>dst\<close> together with the count.
\<close>

definition copy :: "byte list \<Rightarrow> byte list \<Rightarrow> byte list \<times> int" where
  "copy dst src =
     (let n = min (length dst) (length src)
      in (take n src @ drop n dst, int n))"

text \<open>
  \<open>s[i:]\<close> panics unless \<open>0 \<le> i \<le> len s\<close>; \<open>None\<close> is the panic.
\<close>

definition slice_from :: "byte list \<Rightarrow> int \<Rightarrow> byte list option" where
  "slice_from s i =
     (if i < 0 \<or> int (length s) < i then None else Some (drop (nat i) s))"

section \<open>The underlying stream\<close>

text \<open>
  The wrapped \<open>net.Conn\<close> is an external collaborator. It is modelled as a reliable
  duplex stream: \<open>incoming\<close> holds the packets the peer has sent and the wrapper has not
  read yet, in arrival order (a \<open>Read\<close> returns at most one packet, so short reads are
  part of the model; no packet left is end-of-data), \<open>outgoing\<close> is every byte written to
  the transport so far, and \<open>closed\<close> records a \<open>Close\<close>. Reads and writes on a closed
  stream fail.
\<close>

record conn =
  incoming :: "byte list list"
  outgoing :: "byte list"
  closed :: bool

definition conn_Read :: "conn \<Rightarrow> byte list \<Rightarrow> conn \<times> byte list \<times> int \<times> error option" where
  "conn_Read c p =
     (if closed c then (c, p, 0, Some net_ErrClosed)
      else case incoming c of
        [] \<Rightarrow> (c, p, 0, Some io_EOF)
      | pkt # rest \<Rightarrow>
          if length pkt \<le> length p
          then (c\<lparr>incoming := rest\<rparr>, pkt @ drop (length pkt) p, int (length pkt), None)
          else (c\<lparr>incoming := drop (length p) pkt # rest\<rparr>, take (length p) pkt,
                int (length p), None))"

definition conn_Write :: "conn \<Rightarrow> byte list \<Rightarrow> conn \<times> int \<times> error option" where
  "conn_Write c b =
     (if closed c then (c, 0, Some net_ErrClosed)
      else (c\<lparr>outgoing := outgoing c @ b\<rparr>, int (length b), None))"

definition conn_Close :: "conn \<Rightarrow> conn \<times> error option" where
  "conn_Close c =
     (if closed c then (c, Some net_ErrClosed) else (c\<lparr>closed := True\<rparr>, None))"

section \<open>The Server wrapper\<close>

text \<open>
  The struct \<open>Server\<close>. The mutex is left out: the model is sequential, one call at a
  time. Counters and \<open>MaxBuffer\<close> are Go \<open>int\<close>s, modelled as unbounded integers (they
  count bytes held in memory, far from 64-bit overflow).
\<close>

record server =
  conn :: conn
  isPiped :: bool
  err :: "error option"
  MaxBuffer :: int
  rawInput :: "byte list"
  inputCnt :: int
  rawOutput :: "byte list"

definition NewServer :: "conn \<Rightarrow> server" where
  "NewServer cn =
     \<lparr>conn = cn, isPiped = False, err = None, MaxBuffer = 1024,
      rawInput = [], inputCnt = 0, rawOutput = []\<rparr>"

text \<open>
  \<open>Server.Replay\<close>: returns the state and the error.
\<close>

definition Server_Replay :: "server \<Rightarrow> server \<times> error option" where
  "Server_Replay c =
     (if isPiped c then (c, Some errAlreadyPipe)
      else
        let c1 = c\<lparr>rawOutput := []\<rparr>;
            c2 = c1\<lparr>inputCnt := 0\<rparr>;
            c3 = (if err c2 = Some errClosed then c2\<lparr>err := None\<rparr> else c2)
        in (c3, None))"

text \<open>
  \<open>Server.Pipe\<close>. \<open>None\<close> is the panic of \<open>c.rawInput[c.inputCnt:]\<close> out of range.
\<close>

definition Server_Pipe :: "server \<Rightarrow> (server \<times> error option) option" where
  "Server_Pipe c =
     (case (if inputCnt c > 0
            then map_option (\<lambda>ri. c\<lparr>rawInput := ri\<rparr>) (slice_from (rawInput c) (inputCnt c))
            else Some c) of
        None \<Rightarrow> None
      | Some c1 \<Rightarrow>
          let (c2, e) =
                (if length (rawOutput c1) > 0
                 then (let (cn, _, e) = conn_Write (conn c1) (rawOutput c1)
                       in (c1\<lparr>conn := cn, err := e\<rparr>, e))
                 else (c1, None));
              c3 = c2\<lparr>inputCnt := 0\<rparr>;
              c4 = c3\<lparr>isPiped := True\<rparr>
          in Some (c4, e))"

text \<open>
  \<open>Server.read\<close>, the buffered path. The result is the new state, the caller's buffer
  \<open>b\<close> after the call, \<open>n\<close> and \<open>err\<close>; \<open>None\<close> is a slice panic. The first test is on
  the named result \<open>err\<close>, which is still \<open>nil\<close> there, as in the source (it is not a
  test of the field \<open>c.err\<close>).
\<close>

definition Server_read_off :: "server \<Rightarrow> byte list \<Rightarrow> (server \<times> byte list \<times> int \<times> error option) option" where
  "Server_read_off c b =
     (case slice_from (rawInput c) (inputCnt c) of
        None \<Rightarrow> None
      | Some rest \<Rightarrow>
          let (b', n) = copy b rest
          in Some (c\<lparr>inputCnt := inputCnt c + n\<rparr>, b', n, None))"

definition Server_read :: "server \<Rightarrow> byte list \<Rightarrow> (server \<times> byte list \<times> int \<times> error option) option" where
  "Server_read c b =
     (let err0 = (None :: error option) in
      if err0 \<noteq> None then Some (c, b, 0, err0)
      else if isPiped c then
        (if length (rawInput c) > 0 then
           (let (b1, n) = copy b (rawInput c) in
            if length b \<le> length (rawInput c)
            then map_option (\<lambda>ri. (c\<lparr>rawInput := ri\<rparr>, b1, n, None)) (slice_from (rawInput c) n)
            else
              let c1 = c\<lparr>rawInput := []\<rparr>;
                  (cn, tl', read_n, e) = conn_Read (conn c1) (drop (nat n) b1)
              in Some (c1\<lparr>conn := cn, err := e\<rparr>, take (nat n) b1 @ tl', n + read_n, e))
         else
           (let (cn, b1, n, e) = conn_Read (conn c) b
            in Some (c\<lparr>conn := cn, err := e\<rparr>, b1, n, e)))
      else if length (rawOutput c) > 0 then
        Some (c\<lparr>err := Some errHasWriten\<rparr>, b, 0, Some errHasWriten)
      else if inputCnt c + int (length b) > int (length (rawInput c)) then
        (if inputCnt c + int (length b) > MaxBuffer c then
           Some (c\<lparr>err := Some errMaxBuffer, conn := fst (conn_Close (conn c))\<rparr>,
                 b, 0, Some errMaxBuffer)
         else
           let buff = replicate (nat (inputCnt c + int (length b) - int (length (rawInput c)))) (0 :: byte);
               (cn, buff', read_n, e) = conn_Read (conn c) buff;
               c1 = c\<lparr>conn := cn, err := e\<rparr>
           in if e \<noteq> None then Some (c1, b, 0, e)
              else Server_read_off (c1\<lparr>rawInput := rawInput c1 @ take (nat read_n) buff'\<rparr>) b)
      else Server_read_off c b)"

text \<open>
  \<open>Server.Read\<close>: the lock-free passthrough once piped and drained, the buffered path
  otherwise.
\<close>

definition Server_Read :: "server \<Rightarrow> byte list \<Rightarrow> (server \<times> byte list \<times> int \<times> error option) option" where
  "Server_Read c b =
     (if isPiped c \<and> length (rawInput c) = 0
      then (let (cn, b1, n, e) = conn_Read (conn c) b in Some (c\<lparr>conn := cn\<rparr>, b1, n, e))
      else Server_read c b)"

text \<open>
  \<open>Server.write\<close> and \<open>Server.Write\<close>. Again the first test reads the named result.
\<close>

definition Server_write :: "server \<Rightarrow> byte list \<Rightarrow> server \<times> int \<times> error option" where
  "Server_write c b =
     (let err0 = (None :: error option) in
      if err0 \<noteq> None then (c, 0, err0)
      else if int (length (rawOutput c)) + int (length b) > MaxBuffer c then
        (c\<lparr>err := Some errMaxBuffer, conn := fst (conn_Close (conn c))\<rparr>, 0, Some errMaxBuffer)
      else (c\<lparr>rawOutput := rawOutput c @ b\<rparr>, int (length b), None))"

definition Server_Write :: "server \<Rightarrow> byte list \<Rightarrow> server \<times> int \<times> error option" where
  "Server_Write c b =
     (if isPiped c
      then (let (cn, n, e) = conn_Write (conn c) b in (c\<lparr>conn := cn\<rparr>, n, e))
      else Server_write c b)"

text \<open>
  \<open>Server.Close\<close>.
\<close>

definition Server_Close :: "server \<Rightarrow> server \<times> error option" where
  "Server_Close c =
     (if isPiped c
      then (let (cn, e) = conn_Close (conn c) in (c\<lparr>conn := cn\<rparr>, e))
      else (c\<lparr>err := Some errClosed\<rparr>, None))"

section \<open>The Client wrapper\<close>

text \<open>
  The struct \<open>Client\<close>; its fields carry the suffix \<open>C\<close> where the Server record has
  a field of the same name.
\<close>

record client =
  connC :: conn
  isPipedC :: bool
  errC :: "error option"
  MaxBufferC :: int
  rawInputC :: "byte list"
  inputCntC :: int
  rawOutputC :: "byte list"
  outputCnt :: int

definition NewClient :: "conn \<Rightarrow> client" where
  "NewClient cn =
     \<lparr>connC = cn, isPipedC = False, errC = None, MaxBufferC = 1024,
      rawInputC = [], inputCntC = 0, rawOutputC = [], outputCnt = 0\<rparr>"

text \<open>
  \<open>Client.SetNewConn\<close>: the old stream is closed and dropped, the new one receives
  the whole output buffer.
\<close>

definition Client_SetNewConn :: "client \<Rightarrow> conn \<Rightarrow> client \<times> error option" where
  "Client_SetNewConn c cn =
     (let (cn', n, e) = conn_Write cn (rawOutputC c)
      in (c\<lparr>connC := cn', outputCnt := n\<rparr>, e))"

definition Client_Replay :: "client \<Rightarrow> client \<times> error option" where
  "Client_Replay c =
     (if isPipedC c then (c, Some errAlreadyPipe)
      else
        let c1 = c\<lparr>rawInputC := []\<rparr>;
            c2 = c1\<lparr>inputCntC := 0, outputCnt := 0\<rparr>;
            c3 = (if errC c2 = Some errClosed then c2\<lparr>errC := None\<rparr> else c2)
        in (c3, None))"

text \<open>
  \<open>Client.Pipe\<close>. The flush writes \<open>c.rawOutput[c.outputCnt-1:]\<close>, as the source has
  it; \<open>None\<close> is a slice panic.
\<close>

definition Client_Pipe :: "client \<Rightarrow> (client \<times> error option) option" where
  "Client_Pipe c =
     (case (if inputCntC c > 0
            then map_option (\<lambda>ri. c\<lparr>rawInputC := ri\<rparr>) (slice_from (rawInputC c) (inputCntC c))
            else Some c) of
        None \<Rightarrow> None
      | Some c1 \<Rightarrow>
          (case (if length (rawOutputC c1) > 0 \<and> outputCnt c1 < int (length (rawOutputC c1))
                 then map_option
                        (\<lambda>unsent. let (cn, _, e) = conn_Write (connC c1) unsent
                                  in (c1\<lparr>connC := cn, errC := e\<rparr>, e))
                        (slice_from (rawOutputC c1) (outputCnt c1 - 1))
                 else Some (c1, None)) of
             None \<Rightarrow> None
           | Some (c2, e) \<Rightarrow>
               let c3 = c2\<lparr>inputCntC := 0, outputCnt := 0\<rparr>;
                   c4 = c3\<lparr>isPipedC := True\<rparr>
               in Some (c4, e)))"

definition Client_Read :: "client \<Rightarrow> byte list \<Rightarrow> client \<times> byte list \<times> int \<times> error option" where
  "Client_Read c b =
     (let (cn, b1, n, e) = conn_Read (connC c) b in (c\<lparr>connC := cn\<rparr>, b1, n, e))"

text \<open>
  \<open>Client.write\<close> and \<open>Client.Write\<close>; the first test is on the named result, as in
  the Server.
\<close>

definition Client_write :: "client \<Rightarrow> byte list \<Rightarrow> client \<times> int \<times> error option" where
  "Client_write c b =
     (let err0 = (None :: error option) in
      if err0 \<noteq> None then (c, 0, err0)
      else if int (length (rawOutputC c)) + int (length b) > MaxBufferC c then
        (c\<lparr>errC := Some errMaxBuffer, connC := fst (conn_Close (connC c))\<rparr>, 0, Some errMaxBuffer)
      else
        let c1 = c\<lparr>rawOutputC := rawOutputC c @ b\<rparr>;
            (cn, n, e) = conn_Write (connC c1) b
        in (c1\<lparr>connC := cn, outputCnt := outputCnt c1 + n\<rparr>, n, e))"

definition Client_Write :: "client \<Rightarrow> byte list \<Rightarrow> client \<times> int \<times> error option" where
  "Client_Write c b =
     (if isPipedC c
      then (let (cn, n, e) = conn_Write (connC c) b in (c\<lparr>connC := cn\<rparr>, n, e))
      else Client_write c b)"

definition Client_Close :: "client \<Rightarrow> client \<times> error option" where
  "Client_Close c =
     (if isPipedC c
      then (let (cn, e) = conn_Close (connC c) in (c\<lparr>connC := cn\<rparr>, e))
      else (c\<lparr>errC := Some errClosed\<rparr>, None))"

section \<open>Byte sources\<close>

text \<open>
  The \<open>io.Reader\<close>s the seek-over-stream primitives read from. \<open>Src\<close> is any plain
  source: the packets it will still deliver, one \<open>Read\<close> returning at most one packet
  (or the part of it that fits; a \<open>strings.Reader\<close> over \<open>s\<close> is \<open>Src [s]\<close>, over the
  empty string \<open>Src []\<close>), then \<open>io.EOF\<close>. \<open>Buf\<close> is a \<open>*bytes.Buffer\<close> with its
  unread bytes. \<open>Multi\<close> is a nested \<open>*forwardMultiReadSeeker\<close> with its fields
  \<open>readers\<close>, \<open>pos\<close> and \<open>buf\<close>.
\<close>

datatype io_Reader =
    Src "byte list list"
  | Buf "byte list"
  | Multi "io_Reader list" int "byte list"

text \<open>
  \<open>Read\<close> of each kind of source, and the loop of \<open>forwardMultiReadSeeker.Read\<close>
  over the fields \<open>readers\<close> and \<open>pos\<close>. A result is the source after the call, the
  buffer \<open>p\<close> after the call, \<open>n\<close> and \<open>err\<close>. The dropped reader is overwritten
  by \<open>eofReader{}\<close> in the source; the slot is out of the slice afterwards, so the model
  only drops it. When the loop goes round again the reader has just been dropped:
  \<open>err == io.EOF\<close> and \<open>n == 0\<close>.
\<close>

fun reader_Read :: "io_Reader \<Rightarrow> byte list \<Rightarrow> io_Reader \<times> byte list \<times> int \<times> error option"
  and mr_Read_loop :: "io_Reader list \<Rightarrow> int \<Rightarrow> byte list
                        \<Rightarrow> io_Reader list \<times> int \<times> byte list \<times> int \<times> error option"
where
  "reader_Read (Src pkts) p =
     (case pkts of
        [] \<Rightarrow> (Src pkts, p, 0, Some io_EOF)
      | pkt # rest \<Rightarrow>
          if length pkt \<le> length p
          then (Src rest, pkt @ drop (length pkt) p, int (length pkt), None)
          else (Src (drop (length p) pkt # rest), take (length p) pkt, int (length p), None))"
| "reader_Read (Buf bs) p =
     (if bs = [] then (if length p = 0 then (Buf bs, p, 0, None) else (Buf bs, p, 0, Some io_EOF))
      else let (p', n) = copy p bs in (Buf (drop (nat n) bs), p', n, None))"
| "reader_Read (Multi rs pos buf) p =
     (let (rs', pos', p', n, e) = mr_Read_loop rs pos p in (Multi rs' pos' buf, p', n, e))"
| "mr_Read_loop [] pos p = ([], pos, p, 0, Some io_EOF)"
| "mr_Read_loop [Multi rs' pos' buf'] pos p = mr_Read_loop rs' pos p"
| "mr_Read_loop (r # rs) pos p =
     (let (r', p', n, e) = reader_Read r p;
          pos1 = pos + n;
          readers1 = (if e = Some io_EOF then rs else r' # rs)
      in if n > 0 \<or> e \<noteq> Some io_EOF
         then (readers1, pos1, p', n, if e = Some io_EOF \<and> length readers1 > 0 then None else e)
         else mr_Read_loop rs pos1 p')"

section \<open>The Forward Multi-Reader\<close>

record forwardMultiReadSeeker =
  mr_readers :: "io_Reader list"
  mr_pos :: int
  mr_buf :: "byte list"

definition ForwardMultiReadSeeker :: "io_Reader list \<Rightarrow> forwardMultiReadSeeker" where
  "ForwardMultiReadSeeker rs = \<lparr>mr_readers = rs, mr_pos = 0, mr_buf = replicate 2048 0\<rparr>"

definition mr_Read :: "forwardMultiReadSeeker \<Rightarrow> byte list
                         \<Rightarrow> forwardMultiReadSeeker \<times> byte list \<times> int \<times> error option" where
  "mr_Read mr p =
     (let (rs', pos', p', n, e) = mr_Read_loop (mr_readers mr) (mr_pos mr) p
      in (mr\<lparr>mr_readers := rs', mr_pos := pos'\<rparr>, p', n, e))"

text \<open>
  \<open>whence\<close> values of package \<open>io\<close>.
\<close>

definition io_SeekStart :: int where "io_SeekStart = 0"
definition io_SeekCurrent :: int where "io_SeekCurrent = 1"
definition io_SeekEnd :: int where "io_SeekEnd = 2"

text \<open>
  The discard loop of \<open>forwardMultiReadSeeker.Seek\<close>:
  \<open>for tr := abs - mr.pos; tr > 0; tr -= bl\<close>, with the running values of \<open>tr\<close>,
  \<open>bl\<close> and \<open>err\<close>. It reads into \<open>mr.buf[:bl]\<close>. \<open>None\<close> stands for a loop that
  never returns.
\<close>

partial_function (option) mr_Seek_loop ::
  "forwardMultiReadSeeker \<Rightarrow> int \<Rightarrow> int \<Rightarrow> error option
     \<Rightarrow> (forwardMultiReadSeeker \<times> error option) option" where
  "mr_Seek_loop mr tr bl err0 =
     (if tr > 0 then
        (let bl1 = (if tr < bl then tr else bl);
             (mr1, p', np, e) = mr_Read mr (take (nat bl1) (mr_buf mr));
             mr2 = mr1\<lparr>mr_buf := p' @ drop (nat bl1) (mr_buf mr1)\<rparr>
         in if e \<noteq> None \<or> np \<noteq> bl1 then Some (mr2, e)
            else mr_Seek_loop mr2 (tr - bl1) bl1 e)
      else Some (mr, err0))"

text \<open>
  \<open>forwardMultiReadSeeker.Seek\<close>: \<open>mr_Seek_to\<close> is the part after the \<open>switch\<close>,
  from the absolute target \<open>abs\<close> (here \<open>abs_pos\<close>) on.
\<close>

definition mr_Seek_to :: "forwardMultiReadSeeker \<Rightarrow> int
                            \<Rightarrow> (forwardMultiReadSeeker \<times> int \<times> error option) option" where
  "mr_Seek_to mr abs_pos =
     (if abs_pos < 0 then Some (mr, 0, Some (NegativePosition MultiRS))
      else if abs_pos < mr_pos mr then Some (mr, 0, Some (CannotGoBackwards MultiRS))
      else map_option (\<lambda>(mr', e). (mr', mr_pos mr', e))
             (mr_Seek_loop mr (abs_pos - mr_pos mr) (int (length (mr_buf mr))) None))"

definition mr_Seek :: "forwardMultiReadSeeker \<Rightarrow> int \<Rightarrow> int
                         \<Rightarrow> (forwardMultiReadSeeker \<times> int \<times> error option) option" where
  "mr_Seek mr offset whence =
     (if whence = io_SeekStart then mr_Seek_to mr offset
      else if whence = io_SeekCurrent then mr_Seek_to mr (mr_pos mr + offset)
      else if whence = io_SeekEnd then Some (mr, 0, Some (SeekFromEnd MultiRS))
      else Some (mr, 0, Some (InvalidWhence MultiRS)))"

section \<open>The Tee Capturing Reader\<close>

text \<open>
  The repository holds two copies of \<open>teeReadSeeker\<close>. The one in
  \<open>tee_reader.go\<close> has the fields \<open>r\<close>, \<open>w\<close>, \<open>pos\<close> and seeks forward with
  \<open>io.CopyN\<close>; the other copy has a scratch buffer \<open>buf\<close> of 2048 bytes besides
  and seeks forward with a discard loop of its own. \<open>Read\<close> is the same in both. One
  record stands for an instance of either: \<open>tee_buf\<close> is \<open>None\<close> for the struct
  without the field and holds the scratch buffer otherwise. The sink \<open>w\<close> is the
  \<open>*bytes.Buffer\<close> the Replay Reader hands in, held as the bytes written to it and not
  read yet; its \<open>Write\<close> appends and never fails.
\<close>

record teeReadSeeker =
  tee_r :: io_Reader
  tee_w :: "byte list"
  tee_buf :: "byte list option"
  tee_pos :: int




text \<open>
  How much a source can still do before it must deliver a byte or report end-of-data:
  one step for each packet and each byte.
\<close>

fun weight :: "io_Reader \<Rightarrow> nat" where
  "weight (Src pkts) = sum_list (map (\<lambda>pkt. Suc (length pkt)) pkts)"
| "weight (Buf bs) = length bs"
| "weight (Multi rs pos buf) = sum_list (map (\<lambda>r. Suc (weight r)) rs)"

text \<open>
  All the bytes a source will still deliver.
\<close>

fun reader_bytes :: "io_Reader \<Rightarrow> byte list" where
  "reader_bytes (Src pkts) = concat pkts"
| "reader_bytes (Buf bs) = bs"
| "reader_bytes (Multi rs pos buf) = concat (map reader_bytes rs)"

text \<open>
  What every \<open>Read\<close> of a modelled source guarantees: \<open>len p\<close> is kept,
  \<open>0 \<le> n \<le> len p\<close>; without error the \<open>n\<close> bytes delivered are the next bytes of
  the source, and a call with room in \<open>p\<close> delivers a byte or uses the source up a
  little; the only error is \<open>io.EOF\<close>, with nothing delivered and nothing left.
\<close>

definition read_ok :: "byte list \<Rightarrow> byte list \<Rightarrow> nat \<Rightarrow> byte list \<Rightarrow> byte list \<Rightarrow> nat
                         \<Rightarrow> int \<Rightarrow> error option \<Rightarrow> bool" where
  "read_ok bytes p wt bytes' p' wt' n e =
     (length p' = length p \<and> 0 \<le> n \<and> n \<le> int (length p)
      \<and> (case e of
            None \<Rightarrow> take (nat n) p' @ bytes' = bytes \<and> (0 < length p \<longrightarrow> 0 < n \<or> wt' < wt)
          | Some x \<Rightarrow> x = io_EOF \<and> n = 0 \<and> p' = p \<and> bytes = []))"

lemma mr_Read_loop_Cons:
  assumes "rs \<noteq> [] \<or> (\<forall>a b c. r \<noteq> Multi a b c)"
  shows "mr_Read_loop (r # rs) k p =
     (let (r', p', n, e) = reader_Read r p;
          pos1 = k + n;
          readers1 = (if e = Some io_EOF then rs else r' # rs)
      in if n > 0 \<or> e \<noteq> Some io_EOF
         then (readers1, pos1, p', n, if e = Some io_EOF \<and> length readers1 > 0 then None else e)
         else mr_Read_loop rs pos1 p')"
  using assms by (cases r; cases rs) (auto simp del: reader_Read.simps)

abbreviation readers_weight :: "io_Reader list \<Rightarrow> nat" where
  "readers_weight rs \<equiv> sum_list (map (\<lambda>r. Suc (weight r)) rs)"

abbreviation readers_bytes :: "io_Reader list \<Rightarrow> byte list" where
  "readers_bytes rs \<equiv> concat (map reader_bytes rs)"

lemma mr_Read_loop_step:
  assumes nm: "rs \<noteq> [] \<or> (\<forall>a b c. r \<noteq> Multi a b c)"
    and rr: "reader_Read r p = (r', p1, n1, e1)"
    and hd: "read_ok (reader_bytes r) p (weight r) (reader_bytes r') p1 (weight r') n1 e1"
    and tl: "\<not> (0 < n1 \<or> e1 \<noteq> Some io_EOF) \<Longrightarrow>
               \<forall>rs' k' p' n e. mr_Read_loop rs (k + n1) p1 = (rs', k', p', n, e) \<longrightarrow>
                  k' = k + n1 + n \<and> (e \<noteq> None \<longrightarrow> rs' = [])
                  \<and> read_ok (readers_bytes rs) p1 (readers_weight rs) (readers_bytes rs') p' (readers_weight rs') n e"
    and res: "mr_Read_loop (r # rs) k p = (rs', k', p', n, e)"
  shows "k' = k + n \<and> (e \<noteq> None \<longrightarrow> rs' = [])
         \<and> read_ok (readers_bytes (r # rs)) p (readers_weight (r # rs)) (readers_bytes rs') p' (readers_weight rs') n e"
proof (cases "0 < n1 \<or> e1 \<noteq> Some io_EOF")
  case True
  with hd have e1: "e1 = None" by (auto simp: read_ok_def split: option.splits)
  with True rr res have "rs' = r' # rs" "k' = k + n1" "p' = p1" "n = n1" "e = None"
    unfolding mr_Read_loop_Cons[OF nm] by (simp_all add: Let_def)
  with hd e1 show ?thesis by (auto simp: read_ok_def)
next
  case False
  then have e1: "e1 = Some io_EOF" "n1 \<le> 0" by auto
  with hd have h: "n1 = 0" "p1 = p" "reader_bytes r = []" by (auto simp: read_ok_def)
  from False rr res have "mr_Read_loop rs (k + n1) p1 = (rs', k', p', n, e)"
    unfolding mr_Read_loop_Cons[OF nm] by (simp add: Let_def)
  with tl[OF False] have "k' = k + n1 + n" "e \<noteq> None \<longrightarrow> rs' = []"
    "read_ok (readers_bytes rs) p1 (readers_weight rs) (readers_bytes rs') p' (readers_weight rs') n e"
    by auto
  with h show ?thesis by (auto simp: read_ok_def split: option.splits)
qed

lemma reader_Read_ok:
  "\<forall>r' p' n e. reader_Read r p = (r', p', n, e) \<longrightarrow>
      read_ok (reader_bytes r) p (weight r) (reader_bytes r') p' (weight r') n e"
  "\<forall>rs' k' p' n e. mr_Read_loop rs k p = (rs', k', p', n, e) \<longrightarrow>
      k' = k + n \<and> (e \<noteq> None \<longrightarrow> rs' = [])
      \<and> read_ok (readers_bytes rs) p (readers_weight rs) (readers_bytes rs') p' (readers_weight rs') n e"
proof (induction r p and rs k p
    rule: reader_Read_mr_Read_loop.induct
      [case_names Src Buf Multi Nil Flatten ConsSrc ConsBuf ConsMore])
  case (Src pkts p)
  then show ?case by (auto simp: read_ok_def split: list.splits if_splits)
next
  case (Buf bs p)
  then show ?case by (auto simp: read_ok_def copy_def Let_def split: if_splits)
next
  case (Multi rs pos buf p)
  then show ?case by (auto simp: read_ok_def split: prod.splits option.splits)
next
  case (Nil pos p)
  then show ?case by (simp add: read_ok_def)
next
  case (Flatten rs' pos' buf' pos p)
  then show ?case by (auto simp: read_ok_def split: option.splits)
next
  case (ConsSrc v rs pos p)
  note IH = ConsSrc
  show ?case
  proof (intro allI impI)
    fix rs' k' p' n e
    assume res: "mr_Read_loop (Src v # rs) pos p = (rs', k', p', n, e)"
    obtain r' p1 n1 e1 where rr: "reader_Read (Src v) p = (r', p1, n1, e1)" by (metis prod_cases4)
    show "k' = pos + n \<and> (e \<noteq> None \<longrightarrow> rs' = [])
      \<and> read_ok (readers_bytes (Src v # rs)) p (readers_weight (Src v # rs)) (readers_bytes rs') p' (readers_weight rs') n e"
    proof (rule mr_Read_loop_step[OF _ rr _ _ res])
      show "rs \<noteq> [] \<or> (\<forall>a b c. Src v \<noteq> Multi a b c)" by simp
      show "read_ok (reader_bytes (Src v)) p (weight (Src v)) (reader_bytes r') p1 (weight r') n1 e1"
        using IH(1) rr by blast
      show "\<forall>rs' k' p' n e. mr_Read_loop rs (pos + n1) p1 = (rs', k', p', n, e) \<longrightarrow>
                  k' = pos + n1 + n \<and> (e \<noteq> None \<longrightarrow> rs' = [])
                  \<and> read_ok (readers_bytes rs) p1 (readers_weight rs) (readers_bytes rs') p' (readers_weight rs') n e"
        if "\<not> (0 < n1 \<or> e1 \<noteq> Some io_EOF)"
        using IH(2)[OF rr[symmetric] refl refl refl refl refl that] .
    qed
  qed
next
  case (ConsBuf v rs pos p)
  note IH = ConsBuf
  show ?case
  proof (intro allI impI)
    fix rs' k' p' n e
    assume res: "mr_Read_loop (Buf v # rs) pos p = (rs', k', p', n, e)"
    obtain r' p1 n1 e1 where rr: "reader_Read (Buf v) p = (r', p1, n1, e1)" by (metis prod_cases4)
    show "k' = pos + n \<and> (e \<noteq> None \<longrightarrow> rs' = [])
      \<and> read_ok (readers_bytes (Buf v # rs)) p (readers_weight (Buf v # rs)) (readers_bytes rs') p' (readers_weight rs') n e"
    proof (rule mr_Read_loop_step[OF _ rr _ _ res])
      show "rs \<noteq> [] \<or> (\<forall>a b c. Buf v \<noteq> Multi a b c)" by simp
      show "read_ok (reader_bytes (Buf v)) p (weight (Buf v)) (reader_bytes r') p1 (weight r') n1 e1"
        using IH(1) rr by blast
      show "\<forall>rs' k' p' n e. mr_Read_loop rs (pos + n1) p1 = (rs', k', p', n, e) \<longrightarrow>
                  k' = pos + n1 + n \<and> (e \<noteq> None \<longrightarrow> rs' = [])
                  \<and> read_ok (readers_bytes rs) p1 (readers_weight rs) (readers_bytes rs') p' (readers_weight rs') n e"
        if "\<not> (0 < n1 \<or> e1 \<noteq> Some io_EOF)"
        using IH(2)[OF rr[symmetric] refl refl refl refl refl that] .
    qed
  qed
next
  case (ConsMore r v va pos p)
  note IH = ConsMore
  show ?case
  proof (intro allI impI)
    fix rs' k' p' n e
    assume res: "mr_Read_loop (r # v # va) pos p = (rs', k', p', n, e)"
    obtain r' p1 n1 e1 where rr: "reader_Read r p = (r', p1, n1, e1)" by (metis prod_cases4)
    show "k' = pos + n \<and> (e \<noteq> None \<longrightarrow> rs' = [])
      \<and> read_ok (readers_bytes (r # v # va)) p (readers_weight (r # v # va)) (readers_bytes rs') p' (readers_weight rs') n e"
    proof (rule mr_Read_loop_step[OF _ rr _ _ res])
      show "v # va \<noteq> [] \<or> (\<forall>a b c. r \<noteq> Multi a b c)" by simp
      show "read_ok (reader_bytes r) p (weight r) (reader_bytes r') p1 (weight r') n1 e1"
        using IH(1) rr by blast
      show "\<forall>rs' k' p' n e. mr_Read_loop (v # va) (pos + n1) p1 = (rs', k', p', n, e) \<longrightarrow>
                  k' = pos + n1 + n \<and> (e \<noteq> None \<longrightarrow> rs' = [])
                  \<and> read_ok (readers_bytes (v # va)) p1 (readers_weight (v # va)) (readers_bytes rs') p' (readers_weight rs') n e"
        if "\<not> (0 < n1 \<or> e1 \<noteq> Some io_EOF)"
        using IH(2)[OF rr[symmetric] refl refl refl refl refl that] .
    qed
  qed
qed











section \<open>The Replay Reader\<close>

text \<open>
  The struct \<open>Reader\<close>. Its fields \<open>r\<close> and \<open>buf\<close> are the very objects its tee
  reader holds as source and sink, so the model keeps them once, inside \<open>r_tee\<close>:
  \<open>c.r\<close> is \<open>tee_r (r_tee c)\<close> and \<open>c.buf\<close> is \<open>tee_w (r_tee c)\<close>. \<open>r_mr\<close> is
  \<open>nil\<close> until \<open>Pipe\<close>; from then on the buffer and the source are read through
  \<open>r_mr\<close> alone, which holds them. In the results \<open>None\<close> stands for no return: a
  panic (a slice out of range, a call on \<open>nil\<close>) or a loop without end.
\<close>

record Reader =
  r_tee :: teeReadSeeker
  r_mr :: "forwardMultiReadSeeker option"
  pos :: int
  pipe :: bool











section \<open>Sequences of calls\<close>

text \<open>
  A caller's session on a Server wrapper is a list of calls. \<open>Server_call\<close> performs
  one call and returns the new state with the bytes the call delivered to the caller
  (the first \<open>n\<close> bytes of the buffer for a \<open>Read\<close>, nothing otherwise); \<open>None\<close> is a
  panic.
\<close>

datatype server_op = OpRead "byte list" | OpWrite "byte list" | OpReplay | OpPipe | OpClose

fun Server_call :: "server \<Rightarrow> server_op \<Rightarrow> (server \<times> byte list) option" where
  "Server_call c (OpRead b) =
     map_option (\<lambda>(c', b', n, e). (c', take (nat n) b')) (Server_Read c b)"
| "Server_call c (OpWrite b) = Some (fst (Server_Write c b), [])"
| "Server_call c OpReplay = Some (fst (Server_Replay c), [])"
| "Server_call c OpPipe = map_option (\<lambda>(c', e). (c', [])) (Server_Pipe c)"
| "Server_call c OpClose = Some (fst (Server_Close c), [])"

text \<open>
  The states after each call of a session, in order.
\<close>

fun Server_states :: "server \<Rightarrow> server_op list \<Rightarrow> server list option" where
  "Server_states c [] = Some []"
| "Server_states c (x # xs) =
     (case Server_call c x of
        None \<Rightarrow> None
      | Some (c', _) \<Rightarrow> map_option ((#) c') (Server_states c' xs))"

text \<open>
  What a session delivers, cut at each \<open>Replay\<close>. A run is what the reads between
  two \<open>Replay\<close>s did: the bytes they delivered, the number of bytes they asked for
  (the lengths of their buffers), and whether none of them returned an error. The third
  argument is the run in progress; the result lists the runs in order.
\<close>

type_synonym run = "byte list \<times> nat \<times> bool"

fun Server_runs :: "server \<Rightarrow> server_op list \<Rightarrow> run \<Rightarrow> run list option" where
  "Server_runs c [] cur = Some [cur]"
| "Server_runs c (OpReplay # xs) cur =
     map_option ((#) cur) (Server_runs (fst (Server_Replay c)) xs ([], 0, True))"
| "Server_runs c (OpRead b # xs) (got, asked, ok) =
     (case Server_Read c b of
        None \<Rightarrow> None
      | Some (c', b', n, e) \<Rightarrow>
          Server_runs c' xs (got @ take (nat n) b', asked + length b, ok \<and> e = None))"
| "Server_runs c (x # xs) cur =
     (case Server_call c x of
        None \<Rightarrow> None
      | Some (c', _) \<Rightarrow> Server_runs c' xs cur)"

text \<open>
  A list of runs reproduces what came before: each run without a failed read delivers
  at least as many bytes as it asks for, up to the length \<open>M\<close> of the longest run
  before it.
\<close>

fun reproduced :: "nat \<Rightarrow> run list \<Rightarrow> bool" where
  "reproduced M [] = True"
| "reproduced M ((got, asked, ok) # rs) =
     ((ok \<longrightarrow> min asked M \<le> length got) \<and> reproduced (max M (length got)) rs)"

text \<open>
  The same in bytes: \<open>prev\<close> is the longest run so far, and each run without a
  failed read begins with the bytes of \<open>prev\<close>, as many of them as the run asks for.
\<close>

fun reproduces :: "byte list \<Rightarrow> run list \<Rightarrow> bool" where
  "reproduces prev [] = True"
| "reproduces prev ((got, asked, ok) # rs) =
     ((ok \<longrightarrow> prefix (take asked prev) got)
      \<and> reproduces (if length prev < length got then got else prev) rs)"

text \<open>
  Writing a list of chunks, one \<open>Write\<close> each; the results of the calls are kept.
\<close>

fun Server_Write_all :: "server \<Rightarrow> byte list list \<Rightarrow> server \<times> (int \<times> error option) list" where
  "Server_Write_all c [] = (c, [])"
| "Server_Write_all c (b # bs) =
     (let (c1, r) = Server_Write c b;
          (c2, rs) = Server_Write_all c1 bs
      in (c2, r # rs))"

text \<open>
  Two calls of \<open>Pipe\<close> in a row.
\<close>

definition Server_Pipe_Pipe :: "server \<Rightarrow> (server \<times> error option) option" where
  "Server_Pipe_Pipe c =
     (case Server_Pipe c of None \<Rightarrow> None | Some (c1, _) \<Rightarrow> Server_Pipe c1)"

text \<open>
  The invariant of the data model: the cursor lies inside the input buffer and both
  buffers respect \<open>MaxBuffer\<close>.
\<close>

definition Server_inv :: "server \<Rightarrow> bool" where
  "Server_inv c =
     (0 \<le> inputCnt c \<and> inputCnt c \<le> int (length (rawInput c))
      \<and> int (length (rawInput c)) \<le> MaxBuffer c
      \<and> int (length (rawOutput c)) \<le> MaxBuffer c)"

text \<open>
  Once piped the cursor stays at zero (\<open>Pipe\<close> resets it and no later call moves it);
  the invariant is inductive together with this fact.
\<close>

definition Server_inv_piped :: "server \<Rightarrow> bool" where
  "Server_inv_piped c = (Server_inv c \<and> (isPiped c \<longrightarrow> inputCnt c = 0))"

text \<open>
  The byte sequence a Server wrapper has still to deliver from position zero: what it
  holds in \<open>rawInput\<close> followed by what the stream has not handed over yet.
\<close>

definition Server_stream :: "server \<Rightarrow> byte list" where
  "Server_stream c = rawInput c @ concat (incoming (conn c))"

text \<open>
  The calls of a detection phase that only reads and replays, and the states such a
  phase moves through: detecting, nothing written, cursor inside the input buffer.
\<close>

fun sniff_op :: "server_op \<Rightarrow> bool" where
  "sniff_op (OpRead b) = True"
| "sniff_op OpReplay = True"
| "sniff_op _ = False"

definition sniffing :: "server \<Rightarrow> bool" where
  "sniffing c = (\<not> isPiped c \<and> rawOutput c = [] \<and> 0 \<le> inputCnt c
                 \<and> inputCnt c \<le> int (length (rawInput c)))"

text \<open>
  An open stream with nothing sent yet, on which the peer's packets \<open>pkts\<close> wait.
\<close>

definition stream_with :: "byte list list \<Rightarrow> conn" where
  "stream_with pkts = \<lparr>incoming = pkts, outgoing = [], closed = False\<rparr>"

text \<open>
  Reading \<open>k\<close> times from a Forward Multi-Reader through one buffer, which is reused
  from call to call; each entry is the bytes a call delivered and its error.
\<close>

fun mr_Read_times :: "forwardMultiReadSeeker \<Rightarrow> nat \<Rightarrow> byte list \<Rightarrow> (byte list \<times> error option) list" where
  "mr_Read_times mr 0 p = []"
| "mr_Read_times mr (Suc k) p =
     (let (mr', p', n, e) = mr_Read mr p
      in (take (nat n) p', e) # mr_Read_times mr' k p')"





text \<open>
  The three sources \<open>"abc"\<close>, \<open>""\<close>, \<open>"def"\<close>, each a reader over its string.
\<close>

definition abc_def_sources :: "io_Reader list" where
  "abc_def_sources = [Src [[97, 98, 99]], Src [], Src [[100, 101, 102]]]"







section \<open>Properties of the Server wrapper\<close>

text \<open>
  Writes in a row, the invariant step by step, and the stream a detecting wrapper
  delivers.
\<close>

lemma Server_Write_all_detecting:
  "\<not> isPiped c \<Longrightarrow> int (length (rawOutput c)) + int (length (concat bs)) \<le> MaxBuffer c \<Longrightarrow>
   Server_Write_all c bs
     = (c\<lparr>rawOutput := rawOutput c @ concat bs\<rparr>, map (\<lambda>b. (int (length b), None)) bs)"
proof (induction bs arbitrary: c)
  case Nil
  then show ?case by simp
next
  case (Cons b bs)
  have w: "Server_Write c b = (c\<lparr>rawOutput := rawOutput c @ b\<rparr>, int (length b), None)"
    using Cons.prems by (simp add: Server_Write_def Server_write_def)
  have "Server_Write_all (c\<lparr>rawOutput := rawOutput c @ b\<rparr>) bs
          = (c\<lparr>rawOutput := rawOutput c @ b\<rparr>\<lparr>rawOutput := rawOutput (c\<lparr>rawOutput := rawOutput c @ b\<rparr>) @ concat bs\<rparr>,
             map (\<lambda>b. (int (length b), None)) bs)"
    using Cons.prems by (intro Cons.IH) simp_all
  with w show ?case by simp
qed

lemma conn_Read_length:
  "conn_Read cn p = (cn', p', n, e) \<Longrightarrow> 0 \<le> n \<and> n \<le> int (length p) \<and> length p' = length p"
  by (auto simp: conn_Read_def split: if_splits list.splits)


lemma Server_read_off_ok:
  assumes "0 \<le> inputCnt c" and "inputCnt c \<le> int (length (rawInput c))"
  shows "Server_read_off c b =
           Some (c\<lparr>inputCnt := inputCnt c + int (min (length b) (length (rawInput c) - nat (inputCnt c)))\<rparr>,
                 take (min (length b) (length (rawInput c) - nat (inputCnt c))) (drop (nat (inputCnt c)) (rawInput c))
                   @ drop (min (length b) (length (rawInput c) - nat (inputCnt c))) b,
                 int (min (length b) (length (rawInput c) - nat (inputCnt c))), None)"
  using assms by (simp add: Server_read_off_def slice_from_def copy_def Let_def)

lemma Server_read_off_inv:
  assumes "Server_inv c" and "\<not> isPiped c"
  shows "\<exists>c' b' n. Server_read_off c b = Some (c', b', n, None) \<and> Server_inv c' \<and> \<not> isPiped c'
           \<and> MaxBuffer c' = MaxBuffer c"
  using assms Server_read_off_ok[of c b]
  by (auto simp: Server_inv_def)

lemma Server_read_detecting_inv:
  assumes "Server_inv c" and "\<not> isPiped c"
  shows "\<exists>c' b' n e. Server_read c b = Some (c', b', n, e) \<and> Server_inv c' \<and> \<not> isPiped c'
           \<and> MaxBuffer c' = MaxBuffer c"
proof (cases "rawOutput c = []")
  case False
  with assms show ?thesis by (simp add: Server_read_def Server_inv_def)
next
  case True
  note out = this
  show ?thesis
  proof (cases "inputCnt c + int (length b) > int (length (rawInput c))")
    case False
    with assms out Server_read_off_inv[of c b] show ?thesis
      by (auto simp: Server_read_def)
  next
    case True
    note grow = this
    show ?thesis
    proof (cases "inputCnt c + int (length b) > MaxBuffer c")
      case True
      with assms out grow show ?thesis
        by (simp add: Server_read_def Server_inv_def)
    next
      case False
      let ?buff = "replicate (nat (inputCnt c + int (length b) - int (length (rawInput c)))) (0 :: byte)"
      obtain cn buff' read_n e where r: "conn_Read (conn c) ?buff = (cn, buff', read_n, e)"
        by (metis prod_cases4)
      from conn_Read_length[OF r] have len: "0 \<le> read_n" "read_n \<le> int (length ?buff)" "length buff' = length ?buff"
        by auto
      show ?thesis
      proof (cases e)
        case (Some x)
        with assms out grow False r show ?thesis
          by (simp add: Server_read_def Server_inv_def)
      next
        case None
        let ?c1 = "c\<lparr>conn := cn, err := None, rawInput := rawInput c @ take (nat read_n) buff'\<rparr>"
        have "Server_inv ?c1" using assms len grow False by (auto simp: Server_inv_def)
        moreover have "\<not> isPiped ?c1" using assms by simp
        ultimately obtain c' b' n where
          "Server_read_off ?c1 b = Some (c', b', n, None)" "Server_inv c'" "\<not> isPiped c'" "MaxBuffer c' = MaxBuffer ?c1"
          using Server_read_off_inv[of ?c1 b] by blast
        with assms out grow False r None show ?thesis
          by (simp add: Server_read_def)
      qed
    qed
  qed
qed

lemma Server_read_piped_inv:
  assumes "Server_inv_piped c" and "isPiped c"
  shows "\<exists>c' b' n e. Server_read c b = Some (c', b', n, e) \<and> Server_inv_piped c'
           \<and> MaxBuffer c' = MaxBuffer c"
proof (cases "rawInput c = []")
  case True
  obtain cn b1 n e where "conn_Read (conn c) b = (cn, b1, n, e)" by (metis prod_cases4)
  with assms True show ?thesis
    by (simp add: Server_read_def Server_inv_piped_def Server_inv_def)
next
  case False
  show ?thesis
  proof (cases "length b \<le> length (rawInput c)")
    case True
    with assms False show ?thesis
      by (simp add: Server_read_def Server_inv_piped_def Server_inv_def copy_def slice_from_def Let_def)
  next
    case le: False
    obtain cn b1 n e where
      "conn_Read (conn c) (drop (nat (snd (copy b (rawInput c)))) (fst (copy b (rawInput c)))) = (cn, b1, n, e)"
      by (metis prod_cases4)
    with assms False le show ?thesis
      by (simp add: Server_read_def Server_inv_piped_def Server_inv_def split_beta Let_def)
  qed
qed

lemma Server_call_inv:
  assumes "Server_inv_piped c"
  shows "\<exists>c' got. Server_call c x = Some (c', got) \<and> Server_inv_piped c' \<and> MaxBuffer c' = MaxBuffer c"
proof (cases x)
  case (OpRead b)
  show ?thesis
  proof (cases "isPiped c")
    case True
    show ?thesis
    proof (cases "rawInput c = []")
      case e: True
      obtain cn b1 n e where "conn_Read (conn c) b = (cn, b1, n, e)" by (metis prod_cases4)
      with assms True e OpRead show ?thesis
        by (simp add: Server_Read_def Server_inv_piped_def Server_inv_def)
    next
      case False
      with Server_read_piped_inv[OF assms True, of b] OpRead show ?thesis
        by (auto simp: Server_Read_def)
    qed
  next
    case False
    with Server_read_detecting_inv[of c b] assms OpRead show ?thesis
      by (auto simp: Server_Read_def Server_inv_piped_def)
  qed
next
  case (OpWrite b)
  obtain cn n e where "conn_Write (conn c) b = (cn, n, e)" by (metis prod_cases3)
  with assms OpWrite show ?thesis
    by (auto simp: Server_Write_def Server_write_def Server_inv_piped_def Server_inv_def)
next
  case OpReplay
  with assms show ?thesis
    by (auto simp: Server_Replay_def Server_inv_piped_def Server_inv_def Let_def)
next
  case OpPipe
  obtain cn n e where "conn_Write (conn c) (rawOutput c) = (cn, n, e)" by (metis prod_cases3)
  with assms OpPipe show ?thesis
    by (auto simp: Server_Pipe_def Server_inv_piped_def Server_inv_def slice_from_def Let_def)
next
  case OpClose
  obtain cn e where "conn_Close (conn c) = (cn, e)" by (metis prod.exhaust)
  with assms OpClose show ?thesis
    by (auto simp: Server_Close_def Server_inv_piped_def Server_inv_def)
qed

lemma Server_states_inv:
  "Server_inv_piped c \<Longrightarrow>
   \<exists>ss. Server_states c xs = Some ss \<and> length ss = length xs
        \<and> (\<forall>s \<in> set ss. Server_inv_piped s \<and> MaxBuffer s = MaxBuffer c)"
proof (induction xs arbitrary: c)
  case Nil
  then show ?case by simp
next
  case (Cons x xs)
  from Server_call_inv[OF Cons.prems, of x] obtain c' got where
    c: "Server_call c x = Some (c', got)" "Server_inv_piped c'" "MaxBuffer c' = MaxBuffer c"
    by blast
  from Cons.IH[OF c(2)] obtain ss where
    "Server_states c' xs = Some ss" "length ss = length xs"
    "\<forall>s \<in> set ss. Server_inv_piped s \<and> MaxBuffer s = MaxBuffer c'"
    by blast
  with c show ?case by simp
qed

lemma conn_Read_stream:
  "conn_Read cn p = (cn', p', n, None) \<Longrightarrow>
     take (nat n) p' @ concat (incoming cn') = concat (incoming cn)"
  by (auto simp: conn_Read_def split: if_splits list.splits)

lemma conn_Read_error:
  "conn_Read cn p = (cn', p', n, Some x) \<Longrightarrow> cn' = cn \<and> p' = p \<and> n = 0"
  by (auto simp: conn_Read_def split: if_splits list.splits)

lemma Server_read_off_stream:
  assumes "sniffing c"
  shows "\<exists>c' b' n. Server_read_off c b = Some (c', b', n, None) \<and> sniffing c'
           \<and> Server_stream c' = Server_stream c
           \<and> take (nat (inputCnt c')) (rawInput c') = take (nat (inputCnt c)) (rawInput c) @ take (nat n) b'"
proof -
  let ?k = "min (length b) (length (rawInput c) - nat (inputCnt c))"
  have "take (nat (inputCnt c + int ?k)) (rawInput c)
        = take (nat (inputCnt c)) (rawInput c) @ take ?k (drop (nat (inputCnt c)) (rawInput c))"
    using assms by (simp add: sniffing_def nat_add_distrib take_add)
  then show ?thesis
    using assms Server_read_off_ok[of c b]
    by (auto simp: sniffing_def Server_stream_def)
qed

lemma Server_Read_stream:
  assumes "sniffing c"
  shows "\<exists>c' b' n e. Server_Read c b = Some (c', b', n, e) \<and> sniffing c'
           \<and> Server_stream c' = Server_stream c
           \<and> take (nat (inputCnt c')) (rawInput c') = take (nat (inputCnt c)) (rawInput c) @ take (nat n) b'"
proof (cases "inputCnt c + int (length b) > int (length (rawInput c))")
  case False
  with assms Server_read_off_stream[OF assms, of b] show ?thesis
    by (auto simp: Server_Read_def Server_read_def sniffing_def)
next
  case True
  note grow = this
  show ?thesis
  proof (cases "inputCnt c + int (length b) > MaxBuffer c")
    case True
    with assms grow show ?thesis
      by (simp add: Server_Read_def Server_read_def sniffing_def Server_stream_def conn_Close_def)
  next
    case False
    let ?buff = "replicate (nat (inputCnt c + int (length b) - int (length (rawInput c)))) (0 :: byte)"
    obtain cn buff' read_n e where r: "conn_Read (conn c) ?buff = (cn, buff', read_n, e)"
      by (metis prod_cases4)
    show ?thesis
    proof (cases e)
      case (Some x)
      with conn_Read_error[of "conn c" ?buff cn buff' read_n x] r have "cn = conn c" by simp
      with assms grow False r Some show ?thesis
        by (simp add: Server_Read_def Server_read_def sniffing_def Server_stream_def)
    next
      case None
      let ?c1 = "c\<lparr>conn := cn, err := None, rawInput := rawInput c @ take (nat read_n) buff'\<rparr>"
      have s1: "sniffing ?c1" using assms by (simp add: sniffing_def)
      have st: "Server_stream ?c1 = Server_stream c"
        using conn_Read_stream[of "conn c" ?buff cn buff' read_n] r None
        by (simp add: Server_stream_def)
      have "nat (inputCnt c) \<le> length (rawInput c)"
        using assms by (auto simp: sniffing_def)
      then have tk: "take (nat (inputCnt ?c1)) (rawInput ?c1) = take (nat (inputCnt c)) (rawInput c)"
        by simp
      from Server_read_off_stream[OF s1, of b] obtain c' b' n where
        "Server_read_off ?c1 b = Some (c', b', n, None)" "sniffing c'"
        "Server_stream c' = Server_stream ?c1"
        "take (nat (inputCnt c')) (rawInput c') = take (nat (inputCnt ?c1)) (rawInput ?c1) @ take (nat n) b'"
        by blast
      with st tk assms grow False r None show ?thesis
        by (simp add: Server_Read_def Server_read_def sniffing_def)
    qed
  qed
qed

lemma Server_Replay_stream:
  assumes "sniffing c"
  shows "sniffing (fst (Server_Replay c)) \<and> Server_stream (fst (Server_Replay c)) = Server_stream c
         \<and> inputCnt (fst (Server_Replay c)) = 0"
  using assms by (simp add: Server_Replay_def sniffing_def Server_stream_def Let_def)

lemma Server_Read_delivers:
  assumes "sniffing c" and "Server_Read c b = Some (c', b', n, e)"
  shows "length (rawInput c) \<le> length (rawInput c') \<and> 0 \<le> n \<and> inputCnt c' = inputCnt c + n
         \<and> (e = None \<longrightarrow> int (min (length b) (length (rawInput c) - nat (inputCnt c))) \<le> n)"
proof (cases "inputCnt c + int (length b) > int (length (rawInput c))")
  case False
  with assms Server_read_off_ok[of c b] show ?thesis
    by (auto simp: Server_Read_def Server_read_def sniffing_def)
next
  case True
  note grow = this
  show ?thesis
  proof (cases "inputCnt c + int (length b) > MaxBuffer c")
    case True
    with assms grow show ?thesis
      by (auto simp: Server_Read_def Server_read_def sniffing_def)
  next
    case False
    let ?buff = "replicate (nat (inputCnt c + int (length b) - int (length (rawInput c)))) (0 :: byte)"
    obtain cn buff' read_n e1 where r: "conn_Read (conn c) ?buff = (cn, buff', read_n, e1)"
      by (metis prod_cases4)
    show ?thesis
    proof (cases e1)
      case (Some x)
      with assms grow False r show ?thesis
        by (auto simp: Server_Read_def Server_read_def sniffing_def)
    next
      case None
      let ?c1 = "c\<lparr>conn := cn, err := None, rawInput := rawInput c @ take (nat read_n) buff'\<rparr>"
      have i1: "0 \<le> inputCnt ?c1" "inputCnt ?c1 \<le> int (length (rawInput ?c1))"
        using assms by (auto simp: sniffing_def)
      have "Server_Read c b = Server_read_off ?c1 b"
        using assms grow False r None by (simp add: Server_Read_def Server_read_def sniffing_def)
      with assms(2) have ro: "Server_read_off ?c1 b = Some (c', b', n, e)" by simp
      let ?k = "min (length b) (length (rawInput ?c1) - nat (inputCnt ?c1))"
      note ok = Server_read_off_ok[OF i1, of b]
      from ro[unfolded ok] have
        res: "?c1\<lparr>inputCnt := inputCnt ?c1 + int ?k\<rparr> = c'" "int ?k = n" "None = e"
        by auto
      have k: "min (length b) (length (rawInput c) - nat (inputCnt c)) \<le> ?k" by simp
      have "length (rawInput c) \<le> length (rawInput c')" using res(1) by auto
      moreover have "0 \<le> n" using res(2) by auto
      moreover have "inputCnt c' = inputCnt c + n" using res(1,2) by auto
      moreover have "int (min (length b) (length (rawInput c) - nat (inputCnt c))) \<le> n"
        using k res(2) by linarith
      ultimately show ?thesis by simp
    qed
  qed
qed

lemma Server_Read_succeeds:
  assumes "sniffing c"
    and "inputCnt c + int (length b) \<le> MaxBuffer c" and "\<not> closed (conn c)"
    and "incoming (conn c) \<noteq> []"
  shows "\<exists>c' b' n. Server_Read c b = Some (c', b', n, None)"
proof -
  from Server_Read_stream[OF assms(1), of b] obtain c' b' n e where
    r: "Server_Read c b = Some (c', b', n, e)" by blast
  have "e = None"
  proof (cases "inputCnt c + int (length b) > int (length (rawInput c))")
    case False
    with assms r Server_read_off_ok[of c b] show ?thesis
      by (auto simp: Server_Read_def Server_read_def sniffing_def)
  next
    case True
    let ?buff = "replicate (nat (inputCnt c + int (length b) - int (length (rawInput c)))) (0 :: byte)"
    obtain cn buff' read_n e1 where cr: "conn_Read (conn c) ?buff = (cn, buff', read_n, e1)"
      by (metis prod_cases4)
    with assms(3,4) have e1: "e1 = None"
      by (auto simp: conn_Read_def split: list.splits if_splits)
    let ?c1 = "c\<lparr>conn := cn, err := None, rawInput := rawInput c @ take (nat read_n) buff'\<rparr>"
    have i1: "0 \<le> inputCnt ?c1" "inputCnt ?c1 \<le> int (length (rawInput ?c1))"
      using assms by (auto simp: sniffing_def)
    have "Server_Read c b = Server_read_off ?c1 b"
      using assms True cr e1 by (simp add: Server_Read_def Server_read_def sniffing_def)
    with r have ro: "Server_read_off ?c1 b = Some (c', b', n, e)" by simp
    note ok = Server_read_off_ok[OF i1, of b]
    from ro[unfolded ok] show ?thesis by simp
  qed
  with r show ?thesis by blast
qed

lemma Server_runs_reproduce:
  assumes "list_all sniff_op xs" and "sniffing c"
    and "got = take (nat (inputCnt c)) (rawInput c)"
    and "M \<le> length (rawInput c)"
    and "ok \<longrightarrow> min asked M \<le> length got"
  shows "\<exists>rs. Server_runs c xs (got, asked, ok) = Some rs
              \<and> (\<forall>r \<in> set rs. prefix (fst r) (Server_stream c)) \<and> reproduced M rs"
  using assms
proof (induction xs arbitrary: c got asked ok M)
  case Nil
  then show ?case by (simp add: Server_stream_def take_is_prefix)
next
  case (Cons x xs)
  have pc: "prefix got (Server_stream c)"
    using Cons.prems(3) by (simp add: Server_stream_def take_is_prefix)
  have lg: "int (length got) = inputCnt c"
    using Cons.prems(2,3) by (auto simp: sniffing_def)
  show ?case
  proof (cases x)
    case (OpRead b)
    from Server_Read_stream[OF Cons.prems(2), of b] obtain c' b' n e where
      r: "Server_Read c b = Some (c', b', n, e)" "sniffing c'" "Server_stream c' = Server_stream c"
         "take (nat (inputCnt c')) (rawInput c') = take (nat (inputCnt c)) (rawInput c) @ take (nat n) b'"
      by blast
    from Server_Read_delivers[OF Cons.prems(2) r(1)] have
      d: "length (rawInput c) \<le> length (rawInput c')" "0 \<le> n" "inputCnt c' = inputCnt c + n"
         "e = None \<longrightarrow> int (min (length b) (length (rawInput c) - nat (inputCnt c))) \<le> n"
      by simp_all
    have "got @ take (nat n) b' = take (nat (inputCnt c')) (rawInput c')"
      using r(4) Cons.prems(3) by simp
    then have "length (got @ take (nat n) b') = min (length (rawInput c')) (nat (inputCnt c'))"
      by (simp only: length_take)
    then have l2: "int (length (got @ take (nat n) b')) = inputCnt c'"
      using r(2) by (auto simp: sniffing_def)
    have "\<exists>rs. Server_runs c' xs (got @ take (nat n) b', asked + length b, ok \<and> e = None) = Some rs
              \<and> (\<forall>r \<in> set rs. prefix (fst r) (Server_stream c')) \<and> reproduced M rs"
    proof (rule Cons.IH)
      show "list_all sniff_op xs" using Cons.prems(1) by simp
      show "sniffing c'" by (rule r(2))
      show "got @ take (nat n) b' = take (nat (inputCnt c')) (rawInput c')"
        using r(4) Cons.prems(3) by simp
      show "M \<le> length (rawInput c')" using d(1) Cons.prems(4) by simp
      show "ok \<and> e = None \<longrightarrow> min (asked + length b) M \<le> length (got @ take (nat n) b')"
      proof
        assume a: "ok \<and> e = None"
        with Cons.prems(5) have 1: "min asked M \<le> length got" by simp
        from a d(4) have 2: "int (min (length b) (length (rawInput c) - nat (inputCnt c))) \<le> n" by simp
        from l2 d(3) lg have 3: "int (length (got @ take (nat n) b')) = int (length got) + n" by simp
        from 1 2 3 lg Cons.prems(4) show "min (asked + length b) M \<le> length (got @ take (nat n) b')"
          by (auto simp: min_def split: if_splits)
      qed
    qed
    with r OpRead show ?thesis by simp
  next
    case OpReplay
    let ?c' = "fst (Server_Replay c)"
    from Server_Replay_stream[OF Cons.prems(2)] have
      r: "sniffing ?c'" "Server_stream ?c' = Server_stream c" "inputCnt ?c' = 0" by simp_all
    have ri: "rawInput ?c' = rawInput c"
      using Cons.prems(2) by (simp add: Server_Replay_def sniffing_def Let_def)
    have "\<exists>rs. Server_runs ?c' xs ([], 0, True) = Some rs
              \<and> (\<forall>r \<in> set rs. prefix (fst r) (Server_stream ?c')) \<and> reproduced (max M (length got)) rs"
    proof (rule Cons.IH)
      show "list_all sniff_op xs" using Cons.prems(1) by simp
      show "sniffing ?c'" by (rule r(1))
      show "[] = take (nat (inputCnt ?c')) (rawInput ?c')" using r(3) by simp
      show "max M (length got) \<le> length (rawInput ?c')"
        using ri Cons.prems(3,4) by simp
      show "True \<longrightarrow> min 0 (max M (length got)) \<le> length ([] :: byte list)" by simp
    qed
    with r pc OpReplay Cons.prems(5) show ?thesis by auto
  qed (use Cons.prems in simp_all)
qed


lemma reproduced_bytes:
  assumes "\<forall>r \<in> set rs. prefix (fst r) T" and "prefix prev T"
    and "reproduced (length prev) rs"
  shows "reproduces prev rs"
  using assms
proof (induction rs arbitrary: prev)
  case Nil
  then show ?case by simp
next
  case (Cons r rs)
  obtain got asked ok where r: "r = (got, asked, ok)" by (cases r)
  have pg: "prefix got T" using Cons.prems(1) r by simp
  have h: "prefix (take asked prev) got" if "ok"
  proof -
    from that Cons.prems(3) r have le: "min asked (length prev) \<le> length got" by simp
    from pg Cons.prems(2) have "prefix prev got \<or> prefix got prev"
      using prefix_same_cases by blast
    then show ?thesis
    proof
      assume "prefix prev got"
      then show ?thesis using take_is_prefix prefix_order.trans by blast
    next
      assume "prefix got prev"
      then obtain zs where p: "prev = got @ zs" by (auto simp: prefix_def)
      show ?thesis
      proof (cases "asked \<le> length got")
        case True
        then show ?thesis by (simp add: p take_is_prefix)
      next
        case False
        with le have "length prev \<le> length got" by simp
        with p have "zs = []" by simp
        with p show ?thesis by (simp add: take_is_prefix)
      qed
    qed
  qed
  let ?prev' = "if length prev < length got then got else prev"
  have "reproduces ?prev' rs"
  proof (rule Cons.IH)
    show "\<forall>r \<in> set rs. prefix (fst r) T" using Cons.prems(1) by simp
    show "prefix ?prev' T" using pg Cons.prems(2) by simp
    have "length ?prev' = max (length prev) (length got)" by simp
    with Cons.prems(3) r show "reproduced (length ?prev') rs" by simp
  qed
  with h r show ?case by simp
qed


section \<open>Properties of the readers\<close>

text \<open>
  \<open>forwardMultiReadSeeker.Read\<close> reports \<open>io.EOF\<close> only when no reader is left.
\<close>

lemma mr_Read_EOF_no_sources:
  assumes "mr_Read mr p = (mr', p', n, Some io_EOF)"
  shows "mr_readers mr' = [] \<and> n = 0"
proof -
  obtain rs' k' p1 n1 e1 where l: "mr_Read_loop (mr_readers mr) (mr_pos mr) p = (rs', k', p1, n1, e1)"
    by (metis prod_cases5)
  with reader_Read_ok(2)[of "mr_readers mr" "mr_pos mr" p]
  have "e1 \<noteq> None \<longrightarrow> rs' = []" "read_ok (readers_bytes (mr_readers mr)) p (readers_weight (mr_readers mr)) (readers_bytes rs') p1 (readers_weight rs') n1 e1"
    by blast+
  with assms l show ?thesis by (auto simp: mr_Read_def read_ok_def)
qed













lemmas reader_defs = mr_Read_def ForwardMultiReadSeeker_def mr_Seek_def mr_Seek_to_def
  io_SeekStart_def io_SeekCurrent_def io_SeekEnd_def copy_def slice_from_def Let_def



section \<open>Theorems\<close>

text \<open>
  C1. The claim: once the sticky fault is set, every later buffered-path \<open>Read\<close> or
  \<open>Write\<close> in Detecting mode fails at once with that fault. The code tests the
  named result \<open>err\<close> instead of the field \<open>c.err\<close>, so the fault is never looked at:
  after \<open>Close()\<close> during Detecting a Server \<open>Read\<close> still pulls two bytes from the
  stream, delivers them and returns no error (and overwrites the stored fault), a Server
  \<open>Write\<close> still buffers, and a Client \<open>Write\<close> still sends on the stream.
\<close>

theorem sticky_fault_not_checked:
  "err (fst (Server_Close (NewServer (stream_with [[104, 105]])))) = Some errClosed
   \<and> Server_Read (fst (Server_Close (NewServer (stream_with [[104, 105]])))) [0, 0]
       = Some (\<lparr>conn = stream_with [], isPiped = False, err = None, MaxBuffer = 1024,
                 rawInput = [104, 105], inputCnt = 2, rawOutput = []\<rparr>,
               [104, 105], 2, None)
   \<and> Server_Write (fst (Server_Close (NewServer (stream_with [])))) [104, 105]
       = (\<lparr>conn = stream_with [], isPiped = False, err = Some errClosed, MaxBuffer = 1024,
            rawInput = [], inputCnt = 0, rawOutput = [104, 105]\<rparr>, 2, None)
   \<and> errC (fst (Client_Close (NewClient (stream_with [])))) = Some errClosed
   \<and> Client_Write (fst (Client_Close (NewClient (stream_with [])))) [104, 105]
       = (\<lparr>connC = \<lparr>incoming = [], outgoing = [104, 105], closed = False\<rparr>,
            isPipedC = False, errC = Some errClosed, MaxBufferC = 1024,
            rawInputC = [], inputCntC = 0, rawOutputC = [104, 105], outputCnt = 2\<rparr>, 2, None)"
  by (simp add: Server_Close_def NewServer_def stream_with_def Server_Read_def Server_read_def
        Server_read_off_def slice_from_def copy_def conn_Read_def Server_Write_def
        Server_write_def Client_Close_def NewClient_def Client_Write_def Client_write_def
        conn_Write_def Let_def)

text \<open>
  C2. The claim: \<open>Client.Pipe\<close> flushes exactly the unsent suffix
  \<open>rawOutput[outputCnt:]\<close>. The code slices at \<open>outputCnt - 1\<close>. With three bytes
  buffered and one sent it writes all three, so the sent byte goes out twice; after
  \<open>Write\<close> and \<open>Replay\<close> (nothing counted as sent) the slice index is \<open>-1\<close> and
  \<open>Pipe\<close> panics, writing nothing.
\<close>

theorem Client_Pipe_flush_off_by_one:
  "map_option (outgoing \<circ> connC \<circ> fst)
     (Client_Pipe ((NewClient (stream_with []))\<lparr>rawOutputC := [97, 98, 99], outputCnt := 1\<rparr>))
     = Some [97, 98, 99]
   \<and> slice_from [97, 98, 99] 1 = Some [98, 99]
   \<and> fst (Client_Replay (fst (Client_Write (NewClient (stream_with [])) [97, 98, 99])))
     = \<lparr>connC = \<lparr>incoming = [], outgoing = [97, 98, 99], closed = False\<rparr>,
         isPipedC = False, errC = None, MaxBufferC = 1024,
         rawInputC = [], inputCntC = 0, rawOutputC = [97, 98, 99], outputCnt = 0\<rparr>
   \<and> Client_Pipe (fst (Client_Replay (fst (Client_Write (NewClient (stream_with [])) [97, 98, 99]))))
     = None"
  by (simp add: Client_Pipe_def NewClient_def stream_with_def slice_from_def conn_Write_def
        Client_Replay_def Client_Write_def Client_write_def Let_def)

text \<open>
  C3. On a detecting Server wrapper with an empty output buffer over an open stream,
  writing the chunks \<open>bs\<close> one \<open>Write\<close> each, their total length within \<open>MaxBuffer\<close>,
  succeeds call by call, and the \<open>Pipe\<close> that follows appends exactly the
  concatenation of the chunks to what the stream had received, with no error.
\<close>

theorem Server_writes_then_Pipe:
  assumes "\<not> isPiped c" and "rawOutput c = []" and "\<not> closed (conn c)"
    and "0 \<le> inputCnt c" and "inputCnt c \<le> int (length (rawInput c))"
    and "int (length (concat bs)) \<le> MaxBuffer c"
  shows "snd (Server_Write_all c bs) = map (\<lambda>b. (int (length b), None)) bs
         \<and> map_option (\<lambda>(c', e). (outgoing (conn c'), e)) (Server_Pipe (fst (Server_Write_all c bs)))
           = Some (outgoing (conn c) @ concat bs, None)"
proof -
  have wa: "Server_Write_all c bs
     = (c\<lparr>rawOutput := concat bs\<rparr>, map (\<lambda>b. (int (length b), None)) bs)"
    using Server_Write_all_detecting[of c bs] assms by simp
  show ?thesis
    using assms unfolding wa
    by (auto simp: Server_Pipe_def slice_from_def conn_Write_def Let_def)
qed


theorem Server_writes_then_Pipe_witness:
  "snd (Server_Write_all (NewServer (stream_with [])) [[104], [], [105, 33]])
     = [(1, None), (0, None), (2, None)]
   \<and> map_option (\<lambda>(c', e). (outgoing (conn c'), e))
        (Server_Pipe (fst (Server_Write_all (NewServer (stream_with [])) [[104], [], [105, 33]])))
     = Some ([104, 105, 33], None)"
  using Server_writes_then_Pipe [of "NewServer (stream_with [])" "[[104], [], [105, 33]]"]
  by (simp add: NewServer_def stream_with_def)

text \<open>
  C4. The claim as stated fails: a replayed \<open>Read\<close> that reaches beyond the buffered
  input tops the buffer up first, and when the stream's \<open>Read\<close> fails there it returns
  the error without delivering the bytes it holds. Over a stream that delivers two bytes
  and ends, \<open>Read\<close> into four bytes, \<open>Replay\<close>, \<open>Read\<close> into four bytes delivers
  \<open>[1, 2]\<close> and then nothing.
\<close>

theorem Server_replayed_read_fails_at_end_of_stream:
  "Server_runs (NewServer (stream_with [[1, 2]])) [OpRead [0, 0, 0, 0], OpReplay, OpRead [0, 0, 0, 0]]
     ([], 0, True)
     = Some [([1, 2], 4, True), ([], 4, False)]
   \<and> map_option (\<lambda>(c', b', n, e). (n, e))
        (Server_Read ((NewServer \<lparr>incoming = [], outgoing = [], closed = False\<rparr>)\<lparr>rawInput := [1, 2]\<rparr>)
           [0, 0, 0, 0])
     = Some (0, Some io_EOF)"
  by (simp add: NewServer_def stream_with_def Server_Read_def Server_read_def
        Server_read_off_def slice_from_def copy_def conn_Read_def Server_Replay_def Let_def)

text \<open>
  C4, as amended. On a fresh Server wrapper over any stream (any packets waiting, any
  \<open>MaxBuffer\<close>), every session made of \<open>Read\<close> and \<open>Replay\<close> calls runs without
  panic; the bytes delivered between two \<open>Replay\<close>s (and before the first, and after
  the last) are each time a prefix of the one byte sequence arriving on the stream; and
  every run in which no \<open>Read\<close> returned an error begins with the bytes of the
  longest earlier run, as many of them as the run asked for, so that it repeats the
  earlier runs byte for byte as far as it asks, however the reads are sized. A \<open>Read\<close> whose
  span is already buffered returns exactly that span from the buffer and leaves the
  stream alone; a \<open>Read\<close> whose span is within \<open>MaxBuffer\<close>, on an open stream with a
  packet waiting, returns without error.
\<close>

theorem Server_replay_same_prefix:
  assumes "list_all sniff_op xs"
  shows "(\<exists>rs. Server_runs ((NewServer cn)\<lparr>MaxBuffer := m\<rparr>) xs ([], 0, True) = Some rs
              \<and> (\<forall>r \<in> set rs. prefix (fst r) (concat (incoming cn)))
              \<and> reproduces [] rs)
         \<and> (sniffing c \<and> inputCnt c + int (length b) \<le> int (length (rawInput c))
            \<longrightarrow> Server_Read c b
                  = Some (c\<lparr>inputCnt := inputCnt c + int (length b)\<rparr>,
                          take (length b) (drop (nat (inputCnt c)) (rawInput c)),
                          int (length b), None))
         \<and> (sniffing c \<and> inputCnt c + int (length b) \<le> MaxBuffer c \<and> \<not> closed (conn c)
              \<and> incoming (conn c) \<noteq> []
            \<longrightarrow> (\<exists>c' b' n. Server_Read c b = Some (c', b', n, None)))"
proof (intro conjI)
  have "sniffing ((NewServer cn)\<lparr>MaxBuffer := m\<rparr>)" by (simp add: sniffing_def NewServer_def)
  from Server_runs_reproduce[OF assms this, of "[]" 0 True 0]
  obtain rs where rs: "Server_runs ((NewServer cn)\<lparr>MaxBuffer := m\<rparr>) xs ([], 0, True) = Some rs"
    "\<forall>r \<in> set rs. prefix (fst r) (concat (incoming cn))" "reproduced 0 rs"
    by (auto simp: Server_stream_def NewServer_def)
  from reproduced_bytes[OF rs(2), of "[]"] rs(3) have "reproduces [] rs" by simp
  with rs(1,2)
  show "\<exists>rs. Server_runs ((NewServer cn)\<lparr>MaxBuffer := m\<rparr>) xs ([], 0, True) = Some rs
              \<and> (\<forall>r \<in> set rs. prefix (fst r) (concat (incoming cn)))
              \<and> reproduces [] rs"
    by blast
next
  show "sniffing c \<and> inputCnt c + int (length b) \<le> int (length (rawInput c))
            \<longrightarrow> Server_Read c b
                  = Some (c\<lparr>inputCnt := inputCnt c + int (length b)\<rparr>,
                          take (length b) (drop (nat (inputCnt c)) (rawInput c)),
                          int (length b), None)"
  proof
    assume a: "sniffing c \<and> inputCnt c + int (length b) \<le> int (length (rawInput c))"
    then have m: "min (length b) (length (rawInput c) - nat (inputCnt c)) = length b"
      by (auto simp: sniffing_def)
    from a Server_read_off_ok[of c b] show "Server_Read c b
                  = Some (c\<lparr>inputCnt := inputCnt c + int (length b)\<rparr>,
                          take (length b) (drop (nat (inputCnt c)) (rawInput c)),
                          int (length b), None)"
      unfolding m by (simp add: sniffing_def Server_Read_def Server_read_def)
  qed
next
  show "sniffing c \<and> inputCnt c + int (length b) \<le> MaxBuffer c \<and> \<not> closed (conn c)
              \<and> incoming (conn c) \<noteq> []
            \<longrightarrow> (\<exists>c' b' n. Server_Read c b = Some (c', b', n, None))"
    using Server_Read_succeeds[of c b] by blast
qed

theorem Server_replay_same_prefix_witness:
  "Server_runs ((NewServer (stream_with [[1, 2], [3, 4, 5]]))\<lparr>MaxBuffer := 1024\<rparr>)
     [OpRead [0], OpRead [0, 0, 0], OpReplay, OpRead [0, 0, 0, 0], OpReplay, OpRead [0, 0]]
     ([], 0, True)
     = Some [([1, 2], 4, True), ([1, 2, 3, 4], 4, True), ([1, 2], 2, True)]
   \<and> reproduces [] [([1, 2], 4, True), ([1, 2, 3, 4], 4, True), ([1, 2], 2, True)]
   \<and> Server_Read ((NewServer (stream_with [[9]]))\<lparr>rawInput := [1, 2, 3, 4], inputCnt := 1\<rparr>) [0, 0]
     = Some ((NewServer (stream_with [[9]]))\<lparr>rawInput := [1, 2, 3, 4], inputCnt := 3\<rparr>, [2, 3], 2, None)
   \<and> Server_Read ((NewServer (stream_with [[9]]))\<lparr>rawInput := [1, 2, 3, 4], inputCnt := 1\<rparr>) [0, 0, 0, 0]
     = Some ((NewServer (stream_with []))\<lparr>rawInput := [1, 2, 3, 4, 9], inputCnt := 5\<rparr>,
             [2, 3, 4, 9], 4, None)"
  using Server_replay_same_prefix
    [where xs = "[OpRead [0], OpRead [0, 0, 0], OpReplay, OpRead [0, 0, 0, 0], OpReplay, OpRead [0, 0]]"
       and cn = "stream_with [[1, 2], [3, 4, 5]]" and m = 1024
       and c = "(NewServer (stream_with [[9]]))\<lparr>rawInput := [1, 2, 3, 4], inputCnt := 1\<rparr>"
       and b = "[0, 0]"]
    Server_replay_same_prefix
    [where xs = "[OpRead [0], OpRead [0, 0, 0], OpReplay, OpRead [0, 0, 0, 0], OpReplay, OpRead [0, 0]]"
       and cn = "stream_with [[1, 2], [3, 4, 5]]" and m = 1024
       and c = "(NewServer (stream_with [[9]]))\<lparr>rawInput := [1, 2, 3, 4], inputCnt := 1\<rparr>"
       and b = "[0, 0, 0, 0]"]
  by (simp add: NewServer_def stream_with_def Server_Read_def Server_read_def
        Server_read_off_def slice_from_def copy_def conn_Read_def Server_Replay_def
        sniffing_def Let_def)

text \<open>
  C5. The claim adds that the transport is forcibly closed. The code only records the
  fault: on a detecting wrapper with pending output a \<open>Read\<close> returns
  \<open>errHasWriten\<close> with \<open>n = 0\<close>, stores it in \<open>err\<close>, and changes nothing else, so the
  stream stays as it was (open, if it was open).
\<close>

theorem Server_read_after_write:
  assumes "\<not> isPiped c" and "rawOutput c \<noteq> []"
  shows "Server_Read c b = Some (c\<lparr>err := Some errHasWriten\<rparr>, b, 0, Some errHasWriten)
         \<and> conn (c\<lparr>err := Some errHasWriten\<rparr>) = conn c"
  using assms by (simp add: Server_Read_def Server_read_def)

theorem Server_read_after_write_witness:
  "Server_Read (fst (Server_Write (NewServer (stream_with [[1]])) [104])) [0]
     = Some (\<lparr>conn = stream_with [[1]], isPiped = False, err = Some errHasWriten,
               MaxBuffer = 1024, rawInput = [], inputCnt = 0, rawOutput = [104]\<rparr>,
             [0], 0, Some errHasWriten)"
  using Server_read_after_write [of "fst (Server_Write (NewServer (stream_with [[1]])) [104])" "[0]"]
  by (simp add: Server_Write_def Server_write_def NewServer_def)

theorem Server_read_after_write_leaves_stream_open:
  "map_option (\<lambda>(c', b', n, e). (e, err c', closed (conn c')))
     (Server_Read (fst (Server_Write (NewServer (stream_with [[1]])) [104])) [0])
     = Some (Some errHasWriten, Some errHasWriten, False)"
  by (simp add: Server_Read_def Server_read_def Server_Write_def Server_write_def
        NewServer_def stream_with_def)

text \<open>
  C6. In Detecting mode, a Server \<open>Read\<close> that has to grow the input buffer (no output
  pending, span beyond what is buffered) to a span beyond \<open>MaxBuffer\<close>, a Server
  \<open>Write\<close> and a Client \<open>Write\<close> that would take the output buffer beyond
  \<open>MaxBuffer\<close>, each return \<open>errMaxBuffer\<close> with \<open>n = 0\<close>, store it as the fault and
  leave the stream closed. (A Client \<open>Read\<close> buffers nothing.)
\<close>

theorem MaxBuffer_exceeded:
  "(\<not> isPiped s \<and> rawOutput s = [] \<and> inputCnt s + int (length b) > int (length (rawInput s))
      \<and> inputCnt s + int (length b) > MaxBuffer s
    \<longrightarrow> (\<exists>s'. Server_Read s b = Some (s', b, 0, Some errMaxBuffer)
             \<and> err s' = Some errMaxBuffer \<and> closed (conn s')))
   \<and> (\<not> isPiped s \<and> int (length (rawOutput s)) + int (length b) > MaxBuffer s
    \<longrightarrow> (\<exists>s'. Server_Write s b = (s', 0, Some errMaxBuffer)
             \<and> err s' = Some errMaxBuffer \<and> closed (conn s')))
   \<and> (\<not> isPipedC c \<and> int (length (rawOutputC c)) + int (length b) > MaxBufferC c
    \<longrightarrow> (\<exists>c'. Client_Write c b = (c', 0, Some errMaxBuffer)
             \<and> errC c' = Some errMaxBuffer \<and> closed (connC c')))"
  by (auto simp: Server_Read_def Server_read_def Server_Write_def Server_write_def
        Client_Write_def Client_write_def conn_Close_def)

theorem MaxBuffer_exceeded_witness:
  "Server_Read ((NewServer (stream_with [[1, 2, 3]]))\<lparr>MaxBuffer := 2\<rparr>) [0, 0, 0]
     = Some (\<lparr>conn = \<lparr>incoming = [[1, 2, 3]], outgoing = [], closed = True\<rparr>, isPiped = False,
               err = Some errMaxBuffer, MaxBuffer = 2, rawInput = [], inputCnt = 0,
               rawOutput = []\<rparr>, [0, 0, 0], 0, Some errMaxBuffer)
   \<and> Server_Write ((NewServer (stream_with [[1, 2, 3]]))\<lparr>MaxBuffer := 2\<rparr>) [0, 0, 0]
     = (\<lparr>conn = \<lparr>incoming = [[1, 2, 3]], outgoing = [], closed = True\<rparr>, isPiped = False,
          err = Some errMaxBuffer, MaxBuffer = 2, rawInput = [], inputCnt = 0,
          rawOutput = []\<rparr>, 0, Some errMaxBuffer)
   \<and> Client_Write ((NewClient (stream_with []))\<lparr>MaxBufferC := 2\<rparr>) [0, 0, 0]
     = (\<lparr>connC = \<lparr>incoming = [], outgoing = [], closed = True\<rparr>, isPipedC = False,
          errC = Some errMaxBuffer, MaxBufferC = 2, rawInputC = [], inputCntC = 0,
          rawOutputC = [], outputCnt = 0\<rparr>, 0, Some errMaxBuffer)"
  using MaxBuffer_exceeded
    [where s = "(NewServer (stream_with [[1, 2, 3]]))\<lparr>MaxBuffer := 2\<rparr>" and b = "[0, 0, 0]"
       and c = "(NewClient (stream_with []))\<lparr>MaxBufferC := 2\<rparr>"]
  by (simp add: NewServer_def NewClient_def stream_with_def Server_Read_def Server_read_def
        Server_Write_def Server_write_def Client_Write_def Client_write_def conn_Close_def)




text \<open>
  C8. The claim: reads through a 2-byte buffer give \<open>"ab"\<close>, \<open>"c"\<close>, \<open>"de"\<close>,
  \<open>"f"\<close>, then end-of-data, and a forward seek by 4 lands on position 4, the byte
  \<open>'e'\<close>. The reads are as claimed. The seek is not: its discard loop stops at the
  first read that comes back short, which happens at the end of \<open>"abc"\<close>, so it
  returns position 3 with no error and the next byte read is \<open>'d'\<close> (100).
\<close>

theorem mr_reads_in_order_seek_stops_short:
  "mr_Read_times (ForwardMultiReadSeeker abc_def_sources) 5 [0, 0]
     = [([97, 98], None), ([99], None), ([100, 101], None), ([102], None), ([], Some io_EOF)]
   \<and> map_option (\<lambda>(mr', n, e). (n, e, mr_readers mr', mr_Read_times mr' 1 [0]))
        (mr_Seek (ForwardMultiReadSeeker abc_def_sources) 4 io_SeekCurrent)
     = Some (3, None, [Src [], Src [], Src [[100, 101, 102]]], [([100], None)])
   \<and> map_option (\<lambda>(mr', n, e). (n, e, mr_readers mr', mr_Read_times mr' 1 [0]))
        (mr_Seek (ForwardMultiReadSeeker abc_def_sources) 4 io_SeekStart)
     = Some (3, None, [Src [], Src [], Src [[100, 101, 102]]], [([100], None)])"
  by (simp add: reader_defs abc_def_sources_def eval_nat_numeral mr_Seek_loop.simps)


text \<open>
  C9. From a fresh Server wrapper whose \<open>MaxBuffer\<close> is configured to any capacity
  \<open>m \<ge> 0\<close>, over any stream, every session of \<open>Read\<close>, \<open>Write\<close>, \<open>Replay\<close>,
  \<open>Pipe\<close> and \<open>Close\<close> calls runs without panic, and after each call
  \<open>0 \<le> inputCnt \<le> len rawInput \<le> MaxBuffer\<close>, \<open>len rawOutput \<le> MaxBuffer\<close> and
  \<open>MaxBuffer\<close> is still \<open>m\<close>.
\<close>

theorem Server_invariant:
  assumes "0 \<le> m"
  shows "\<exists>ss. Server_states ((NewServer cn)\<lparr>MaxBuffer := m\<rparr>) xs = Some ss
               \<and> length ss = length xs
               \<and> (\<forall>s \<in> set ss. Server_inv s \<and> MaxBuffer s = m)"
proof -
  have "Server_inv_piped ((NewServer cn)\<lparr>MaxBuffer := m\<rparr>)"
    using assms by (simp add: Server_inv_piped_def Server_inv_def NewServer_def)
  from Server_states_inv[OF this, of xs] show ?thesis
    by (auto simp: Server_inv_piped_def)
qed


theorem Server_invariant_witness:
  "map_option (map (\<lambda>s. (inputCnt s, length (rawInput s), length (rawOutput s), Server_inv s)))
     (Server_states ((NewServer (stream_with [[1, 2, 3], [4]]))\<lparr>MaxBuffer := 5\<rparr>)
        [OpRead [0, 0], OpRead [0, 0, 0], OpReplay, OpWrite [7, 7], OpWrite [7, 7, 7, 7], OpClose, OpPipe])
     = Some [(2, 2, 0, True), (3, 3, 0, True), (0, 3, 0, True), (0, 3, 2, True),
             (0, 3, 2, True), (0, 3, 2, True), (0, 3, 2, True)]"
  using Server_invariant [where m = 5 and cn = "stream_with [[1, 2, 3], [4]]"
        and xs = "[OpRead [0, 0], OpRead [0, 0, 0], OpReplay, OpWrite [7, 7], OpWrite [7, 7, 7, 7], OpClose, OpPipe]"]
  by (simp add: NewServer_def stream_with_def Server_Read_def Server_read_def
        Server_read_off_def slice_from_def copy_def conn_Read_def conn_Write_def conn_Close_def
        Server_Write_def Server_write_def Server_Replay_def Server_Pipe_def Server_Close_def
        Server_inv_def Let_def)

text \<open>
  C10. \<open>Server.Pipe\<close> keeps the output buffer after flushing it: on a wrapper with a
  non-empty output buffer over an open stream (cursor inside the input buffer), one
  \<open>Pipe\<close> appends the buffer to the stream, a second \<open>Pipe\<close> appends it once more, so
  two calls leave the stream different from one call.
\<close>

theorem Server_Pipe_twice_rewrites:
  assumes "rawOutput c \<noteq> []" and "\<not> closed (conn c)"
    and "0 \<le> inputCnt c" and "inputCnt c \<le> int (length (rawInput c))"
  shows "map_option (\<lambda>(c1, e). (outgoing (conn c1), rawOutput c1, e)) (Server_Pipe c)
           = Some (outgoing (conn c) @ rawOutput c, rawOutput c, None)
         \<and> map_option (\<lambda>(c2, e). (outgoing (conn c2), e)) (Server_Pipe_Pipe c)
           = Some (outgoing (conn c) @ rawOutput c @ rawOutput c, None)
         \<and> map_option (outgoing \<circ> conn \<circ> fst) (Server_Pipe_Pipe c)
           \<noteq> map_option (outgoing \<circ> conn \<circ> fst) (Server_Pipe c)"
  using assms
  by (auto simp: Server_Pipe_Pipe_def Server_Pipe_def slice_from_def conn_Write_def Let_def)

theorem Server_Pipe_twice_rewrites_witness:
  "map_option (outgoing \<circ> conn \<circ> fst)
     (Server_Pipe ((NewServer (stream_with []))\<lparr>rawOutput := [104, 105]\<rparr>))
     = Some [104, 105]
   \<and> map_option (outgoing \<circ> conn \<circ> fst)
     (Server_Pipe_Pipe ((NewServer (stream_with []))\<lparr>rawOutput := [104, 105]\<rparr>))
     = Some [104, 105, 104, 105]"
  using Server_Pipe_twice_rewrites
    [of "(NewServer (stream_with []))\<lparr>rawOutput := [104, 105]\<rparr>"]
  by (auto simp: NewServer_def stream_with_def)


end
